theory Spec2Isabelle
  imports Main "HOL-Library.Multiset" "HOL-Library.AList"
begin

section \<open>The blog content cache of marvinblum.de\<close>

text \<open>
  Package \<^verbatim>\<open>blog\<close> keeps the published articles of a remote content service in
  memory: an index by article id, an index by publication year and the time of the next
  refresh. The theory embeds the package function by function. Strings are byte lists,
  as Go strings are. What the Go code takes from outside (the remote client, HTTP, the
  file system's refusals, the calendar, the path library) is a record \<open>env\<close>; what it
  changes outside the \<^verbatim>\<open>Blog\<close> struct (directories, files, the calls it made) is a
  record \<open>world\<close>; what the Go runtime decides during one call (the readings of
  \<^verbatim>\<open>time.Now()\<close>, the order of each \<^verbatim>\<open>range\<close> over a map) is a record \<open>run\<close>.
\<close>

subsection \<open>Regular expressions\<close>

text \<open>
  All three expressions carry the flags \<^verbatim>\<open>(?iU)\<close>: letters match in either case and
  every \<^verbatim>\<open>+\<close> is lazy. \<open>matchFold p s\<close> matches the lower-case literal \<open>p\<close> at the
  start of \<open>s\<close> in either case and returns what follows it.
\<close>

definition toUpperASCII :: "char \<Rightarrow> char" where
  "toUpperASCII c =
     (case map_of (zip ''abcdefghijklmnopqrstuvwxyz'' ''ABCDEFGHIJKLMNOPQRSTUVWXYZ'') c of
        Some u \<Rightarrow> u
      | None \<Rightarrow> c)"

fun matchFold :: "string \<Rightarrow> string \<Rightarrow> string option" where
  "matchFold [] s = Some s"
| "matchFold (p # ps) [] = None"
| "matchFold (p # ps) (c # cs) =
     (if c = p \<or> c = toUpperASCII p then matchFold ps cs else None)"

definition dquote :: char where
  "dquote = CHR 0x22"

definition notQuote :: "char \<Rightarrow> bool" where
  "notQuote c = (c \<noteq> dquote)"

text \<open>
  A compiled expression is modelled by its anchored matcher: applied to the text from
  some position on, it returns the capture groups of the match that begins at that
  position (group 0, the whole match, first) and the text after the match.
\<close>

type_synonym regexp = "string \<Rightarrow> (string list \<times> string) option"

definition matched :: "string \<Rightarrow> string \<Rightarrow> string" where
  "matched s rest = take (length s - length rest) s"

text \<open>
  \<^verbatim>\<open>linkRegex = (?iU)href="/read/([^"]+)"\<close>. The class excludes the quote, so lazy or
  not the group is the run up to the next quote; it must not be empty and the quote
  must be there.
\<close>

definition linkRegex :: regexp where
  "linkRegex s =
     (case matchFold ''href=\"/read/'' s of
        None \<Rightarrow> None
      | Some r \<Rightarrow>
          (let g1 = takeWhile notQuote r; t = dropWhile notQuote r
           in if g1 = [] \<or> t = [] then None
              else Some ([matched s (tl t), g1], tl t)))"

text \<open>
  The alternation \<^verbatim>\<open>(href|src)\<close>. Go folds case with \<^verbatim>\<open>unicode.SimpleFold\<close>, whose
  orbit of the letter s is s, S and U+017F (the bytes C5 BF); of the letters in the three
  expressions only s has a fold outside ASCII.
\<close>

definition attrName :: "string \<Rightarrow> (string \<times> string) option" where
  "attrName s =
     (case matchFold ''href'' s of
        Some r \<Rightarrow> Some (matched s r, r)
      | None \<Rightarrow>
          (case matchFold ''src'' s of
             Some r \<Rightarrow> Some (matched s r, r)
           | None \<Rightarrow>
               (case matchFold [CHR 0xC5, CHR 0xBF, CHR ''r'', CHR ''c''] s of
                  Some r \<Rightarrow> Some (matched s r, r)
                | None \<Rightarrow> None)))"

text \<open>
  \<^verbatim>\<open>([^"]+)/api/v1/content/([^"]+)\<close> inside the quotes: the first group is lazy, so it
  is the shortest non-empty prefix after which the literal stands with something left
  behind it. \<open>splitContent pre s\<close> tries the prefixes in that order, \<open>pre\<close> being the
  part already passed over.
\<close>

fun splitContent :: "string \<Rightarrow> string \<Rightarrow> (string \<times> string \<times> string) option" where
  "splitContent pre [] = None"
| "splitContent pre (c # cs) =
     (case (if pre = [] then None else matchFold ''/api/v1/content/'' (c # cs)) of
        Some r \<Rightarrow>
          if r \<noteq> [] then Some (pre, matched (c # cs) r, r)
          else splitContent (pre @ [c]) cs
      | None \<Rightarrow> splitContent (pre @ [c]) cs)"

definition attachmentParts ::
  "string \<Rightarrow> (string \<times> string \<times> string \<times> string \<times> string) option" where
  "attachmentParts s =
     (case attrName s of
        None \<Rightarrow> None
      | Some (g1, r1) \<Rightarrow>
          (case matchFold ''=\"'' r1 of
             None \<Rightarrow> None
           | Some r2 \<Rightarrow>
               (let t = dropWhile notQuote r2
                in if t = [] then None
                   else (case splitContent [] (takeWhile notQuote r2) of
                           None \<Rightarrow> None
                         | Some (pre, lit, post) \<Rightarrow> Some (g1, pre, lit, post, tl t)))))"

text \<open>
  \<^verbatim>\<open>attachmentRegex = (?iU)(href|src)="([^"]+)/api/v1/content/([^"]+)"\<close> and
  \<^verbatim>\<open>attachmentURLRegex = (?iU)(href|src)="([^"]+/api/v1/content/)([^"]+)"\<close> match the
  same texts and differ in what the second group holds.
\<close>

definition attachmentRegex :: regexp where
  "attachmentRegex s =
     (case attachmentParts s of
        None \<Rightarrow> None
      | Some (g1, pre, lit, post, rest) \<Rightarrow> Some ([matched s rest, g1, pre, post], rest))"

definition attachmentURLRegex :: regexp where
  "attachmentURLRegex s =
     (case attachmentParts s of
        None \<Rightarrow> None
      | Some (g1, pre, lit, post, rest) \<Rightarrow>
          Some ([matched s rest, g1, pre @ lit, post], rest))"

text \<open>
  The search of \<^verbatim>\<open>ReplaceAllString\<close> and \<^verbatim>\<open>FindAllStringSubmatch\<close>: leftmost match
  first, the next search starting where the match ended. The three expressions never
  match the empty string, so the test on the length always succeeds.
\<close>

datatype piece = Text char | Match "string list"

function scan :: "regexp \<Rightarrow> string \<Rightarrow> piece list" where
  "scan re [] = []"
| "scan re (c # cs) =
     (case re (c # cs) of
        None \<Rightarrow> Text c # scan re cs
      | Some (groups, rest) \<Rightarrow>
          if length rest \<le> length cs then Match groups # scan re rest
          else Text c # scan re cs)"
  by pat_completeness auto
termination
  by (relation "measure (\<lambda>(re, s). length s)") auto

text \<open>
  The template language of \<^verbatim>\<open>Regexp.Expand\<close>: \<^verbatim>\<open>$$\<close> is a dollar sign, \<^verbatim>\<open>$name\<close> and
  \<^verbatim>\<open>${name}\<close> a group, a name being the longest run of letters, digits and underscores.
  A numeric name is a group index; any other name refers to a named group, of which the
  three expressions have none, so it expands to nothing. Go also accepts letters and
  digits beyond ASCII in a name; \<open>isNameChar\<close> knows the ASCII ones only.
\<close>

definition isNameChar :: "char \<Rightarrow> bool" where
  "isNameChar c =
     (c \<in> set ''abcdefghijklmnopqrstuvwxyzABCDEFGHIJKLMNOPQRSTUVWXYZ0123456789_'')"

definition digitVal :: "char \<Rightarrow> int option" where
  "digitVal c = map_of (zip ''0123456789'' [0, 1, 2, 3, 4, 5, 6, 7, 8, 9]) c"

fun parseNum :: "int \<Rightarrow> string \<Rightarrow> int" where
  "parseNum num [] = num"
| "parseNum num (c # cs) =
     (case digitVal c of
        None \<Rightarrow> - 1
      | Some d \<Rightarrow> if num \<ge> 100000000 then - 1 else parseNum (num * 10 + d) cs)"

definition extract' :: "string \<Rightarrow> (string \<times> int \<times> string) option" where
  "extract' str =
     (if str = [] then None
      else
        (let brace = (hd str = CHR ''{'');
             str1 = (if brace then tl str else str);
             name = takeWhile isNameChar str1;
             after = dropWhile isNameChar str1
         in if name = [] then None
            else if brace \<and> (after = [] \<or> hd after \<noteq> CHR ''}'') then None
            else Some (name,
                       if hd name = CHR ''0'' \<and> length name > 1 then - 1 else parseNum 0 name,
                       if brace then tl after else after)))"

function expand :: "string \<Rightarrow> string list \<Rightarrow> string" where
  "expand [] groups = []"
| "expand (c # template) groups =
     (if c \<noteq> CHR ''$'' then c # expand template groups
      else if template \<noteq> [] \<and> hd template = CHR ''$''
      then CHR ''$'' # expand (tl template) groups
      else
        (case extract' template of
           None \<Rightarrow> CHR ''$'' # expand template groups
         | Some (name, num, rest) \<Rightarrow>
             (if 0 \<le> num \<and> nat num < length groups then groups ! nat num else [])
             @ expand rest groups))"
  by pat_completeness auto
termination
proof (relation "measure (\<lambda>(t, g). length t)")
  fix c :: char and template :: string and groups :: "string list" and x2 x y xa ya
  assume "extract' template = Some x2" "(x, y) = x2" "(xa, ya) = y"
  then have "extract' template = Some (x, xa, ya)" by simp
  then have "length ya \<le> length template"
    using length_dropWhile_le [of isNameChar template]
      length_dropWhile_le [of isNameChar "tl template"]
    by (auto simp: extract'_def Let_def split: if_splits)
  then show "((ya, groups), c # template, groups) \<in> measure (\<lambda>(t, g). length t)" by simp
qed auto

definition ReplaceAllString :: "regexp \<Rightarrow> string \<Rightarrow> string \<Rightarrow> string" where
  "ReplaceAllString re src repl =
     concat (map (\<lambda>p. case p of Text c \<Rightarrow> [c] | Match groups \<Rightarrow> expand repl groups)
                 (scan re src))"

definition FindAllStringSubmatch :: "regexp \<Rightarrow> string \<Rightarrow> string list list" where
  "FindAllStringSubmatch re s =
     concat (map (\<lambda>p. case p of Text c \<Rightarrow> [] | Match groups \<Rightarrow> [groups]) (scan re s))"

subsection \<open>Data\<close>

text \<open>
  Of \<^verbatim>\<open>emvi.Article\<close> and \<^verbatim>\<open>emvi.ArticleContent\<close> the fields the package reads or
  writes. \<^verbatim>\<open>LatestArticleContent\<close> is a pointer, \<open>None\<close> being nil. A \<^verbatim>\<open>time.Time\<close> is
  an integer of nanoseconds counted from the zero time, a \<^verbatim>\<open>time.Duration\<close> an integer
  of nanoseconds.
\<close>

record ArticleContent =
  LanguageId :: string
  Content :: string

record Article =
  Id' :: string
  Published :: int
  LatestArticleContent :: "ArticleContent option"

definition zeroArticle :: Article where
  "zeroArticle = \<lparr>Id' = [], Published = 0, LatestArticleContent = None\<rparr>"

text \<open>
  A Go map from article ids is an association list with distinct keys. Its order is
  not the order of a \<^verbatim>\<open>range\<close>: each loop over the map runs through a rearrangement
  that the run supplies.
\<close>

type_synonym articleMap = "(string \<times> Article) list"

record Blog =
  articles :: articleMap
  articlesYear :: "int \<rightharpoonup> Article list"
  nextUpdate :: int

definition blogCacheTime :: int where
  "blogCacheTime = 3600000000000"

definition blogFileCache :: string where
  "blogFileCache = ''static/blog''"

definition maxLatestArticles :: nat where
  "maxLatestArticles = 3"

datatype error = Error string

datatype panic = NilPointerDereference

datatype response = GetFailed | ReadFailed | Body string

record env =
  FindArticles :: "nat \<Rightarrow> error + Article list"
  GetArticleContent :: "string \<Rightarrow> string \<Rightarrow> error + ArticleContent"
  Get :: "string \<Rightarrow> response"
  MkdirAllFails :: "string \<Rightarrow> bool"
  WriteFileFails :: "string \<Rightarrow> bool"
  Join :: "string list \<Rightarrow> string"
  Year :: "int \<Rightarrow> int"

datatype event =
    Refreshing
  | FindArticlesCall nat
  | GetArticleCall string string
  | HttpGet string

record world =
  dirs :: "string set"
  files :: "string \<rightharpoonup> string"
  trace :: "event list"

record run =
  now1 :: int
  now2 :: int
  rangeLoad :: "articleMap \<Rightarrow> articleMap"
  rangeSet :: "articleMap \<Rightarrow> articleMap"
  rangeLatest :: "articleMap \<Rightarrow> articleMap"

definition validRun :: "run \<Rightarrow> bool" where
  "validRun r =
     (\<forall>m. mset (rangeLoad r m) = mset m \<and> mset (rangeSet r m) = mset m
          \<and> mset (rangeLatest r m) = mset m)"

definition logged :: "event \<Rightarrow> world \<Rightarrow> world" where
  "logged e w = w\<lparr>trace := trace w @ [e]\<rparr>"

definition notExist :: "world \<Rightarrow> string \<Rightarrow> bool" where
  "notExist w p = (p \<notin> dirs w \<and> files w p = None)"

subsection \<open>downloadAttachments\<close>

fun download :: "env \<Rightarrow> string \<Rightarrow> string list list \<Rightarrow> world \<Rightarrow> world" where
  "download e id' [] w = w"
| "download e id' (attachment # results) w =
     (if length attachment = 4 then
        (let w1 = logged (HttpGet (attachment ! 2 @ attachment ! 3)) w
         in case Get e (attachment ! 2 @ attachment ! 3) of
              GetFailed \<Rightarrow> download e id' results w1
            | ReadFailed \<Rightarrow> download e id' results w1
            | Body data \<Rightarrow>
                (let p = Join e [blogFileCache, id', attachment ! 3]
                 in if WriteFileFails e p then download e id' results w1
                    else download e id' results (w1\<lparr>files := (files w1)(p \<mapsto> data)\<rparr>)))
      else download e id' results w)"

definition downloadAttachments :: "env \<Rightarrow> string \<Rightarrow> string \<Rightarrow> world \<Rightarrow> world" where
  "downloadAttachments e id' content w =
     (let dir = Join e [blogFileCache, id']
      in if notExist w dir \<and> MkdirAllFails e dir then w
         else download e id' (FindAllStringSubmatch attachmentURLRegex content)
                (if notExist w dir then w\<lparr>dirs := insert dir (dirs w)\<rparr> else w))"

subsection \<open>loadArticle\<close>

definition rewriteContent :: "string \<Rightarrow> string \<Rightarrow> string" where
  "rewriteContent id' content =
     ReplaceAllString attachmentRegex
       (ReplaceAllString linkRegex content ''href=\"/blog/$1\"'')
       (''$1=\"/static/blog/'' @ id' @ ''/$3\"'')"

definition loadArticle ::
  "env \<Rightarrow> Article \<Rightarrow> world \<Rightarrow> world \<times> (panic + ArticleContent option)" where
  "loadArticle e article w =
     (case LatestArticleContent article of
        None \<Rightarrow> (w, Inl NilPointerDereference)
      | Some latest \<Rightarrow>
          (let w1 = logged (GetArticleCall (Id' article) (LanguageId latest)) w
           in case GetArticleContent e (Id' article) (LanguageId latest) of
                Inl err \<Rightarrow> (w1, Inr None)
              | Inr content \<Rightarrow>
                  (downloadAttachments e (Id' article) (Content content) w1,
                   Inr (Some (content\<lparr>Content :=
                                rewriteContent (Id' article) (Content content)\<rparr>)))))"

subsection \<open>setArticles\<close>

fun fillYears ::
  "(int \<Rightarrow> int) \<Rightarrow> articleMap \<Rightarrow> (int \<rightharpoonup> Article list) \<Rightarrow> (int \<rightharpoonup> Article list)" where
  "fillYears yr [] years = years"
| "fillYears yr ((k, article) # rest) years =
     fillYears yr rest
       (case years (yr (Published article)) of
          None \<Rightarrow> years(yr (Published article) \<mapsto> [] @ [article])
        | Some bucket \<Rightarrow> years(yr (Published article) \<mapsto> bucket @ [article]))"

definition setArticles :: "env \<Rightarrow> run \<Rightarrow> articleMap \<Rightarrow> Blog \<Rightarrow> Blog" where
  "setArticles e r as blog =
     blog\<lparr>articles := as, articlesYear := fillYears (Year e) (rangeSet r as) Map.empty\<rparr>"

subsection \<open>loadArticles\<close>

text \<open>
  The paging loop. It ends when a page is empty or a fetch fails, and need not end at
  all against a service that always has one more article: not returning is \<open>None\<close>.
\<close>

partial_function (option) fetchPages ::
  "env \<Rightarrow> nat \<Rightarrow> nat \<Rightarrow> articleMap \<Rightarrow> world \<Rightarrow> (world \<times> (error + articleMap)) option" where
  "fetchPages e offset count' as w =
     (if count' > 0 then
        (case FindArticles e offset of
           Inl err \<Rightarrow> Some (logged (FindArticlesCall offset) w, Inl err)
         | Inr results \<Rightarrow>
             fetchPages e (offset + length results) (length results)
               (foldl (\<lambda>m article. AList.update (Id' article) article m) as results)
               (logged (FindArticlesCall offset) w))
      else Some (w, Inr as))"

text \<open>
  The loop over the fetched map (lines 376 to 379). The pairs come from the
  rearranged map; each article is written back under its key.
\<close>

fun loadContents ::
  "env \<Rightarrow> (string \<times> Article) list \<Rightarrow> articleMap \<Rightarrow> world \<Rightarrow> world \<times> (panic + articleMap)" where
  "loadContents e [] as w = (w, Inr as)"
| "loadContents e ((k, v) # rest) as w =
     (case loadArticle e v w of
        (w1, Inl p) \<Rightarrow> (w1, Inl p)
      | (w1, Inr content) \<Rightarrow>
          loadContents e rest (AList.update k (v\<lparr>LatestArticleContent := content\<rparr>) as) w1)"

definition loadArticles :: "env \<Rightarrow> run \<Rightarrow> Blog \<Rightarrow> world \<Rightarrow> (world \<times> (panic + Blog)) option" where
  "loadArticles e r blog w =
     (case fetchPages e 0 1 [] (logged Refreshing w) of
        None \<Rightarrow> None
      | Some (w1, Inl err) \<Rightarrow> Some (w1, Inr (blog\<lparr>nextUpdate := now2 r + blogCacheTime\<rparr>))
      | Some (w1, Inr as) \<Rightarrow>
          (case loadContents e (rangeLoad r as) as w1 of
             (w2, Inl p) \<Rightarrow> Some (w2, Inl p)
           | (w2, Inr as') \<Rightarrow>
               Some (w2, Inr ((setArticles e r as' blog)
                                \<lparr>nextUpdate := now2 r + blogCacheTime\<rparr>))))"

subsection \<open>The public operations\<close>

definition refreshIfRequired ::
  "env \<Rightarrow> run \<Rightarrow> Blog \<Rightarrow> world \<Rightarrow> (world \<times> (panic + Blog)) option" where
  "refreshIfRequired e r blog w =
     (if nextUpdate blog < now1 r then loadArticles e r blog w else Some (w, Inr blog))"

definition NewBlog :: "env \<Rightarrow> run \<Rightarrow> world \<Rightarrow> (world \<times> (panic + Blog)) option" where
  "NewBlog e r w =
     loadArticles e r
       \<lparr>articles = [], articlesYear = Map.empty, nextUpdate = now1 r + blogCacheTime\<rparr>
       (if MkdirAllFails e blogFileCache then w
        else w\<lparr>dirs := insert blogFileCache (dirs w)\<rparr>)"

definition GetArticle ::
  "env \<Rightarrow> run \<Rightarrow> string \<Rightarrow> Blog \<Rightarrow> world \<Rightarrow> (world \<times> (panic + Blog \<times> Article)) option" where
  "GetArticle e r id' blog w =
     (case refreshIfRequired e r blog w of
        None \<Rightarrow> None
      | Some (w1, Inl p) \<Rightarrow> Some (w1, Inl p)
      | Some (w1, Inr blog1) \<Rightarrow>
          Some (w1, Inr (blog1, case map_of (articles blog1) id' of
                                  None \<Rightarrow> zeroArticle
                                | Some article \<Rightarrow> article)))"

definition GetArticles ::
  "env \<Rightarrow> run \<Rightarrow> Blog \<Rightarrow> world
     \<Rightarrow> (world \<times> (panic + Blog \<times> (int \<rightharpoonup> Article list))) option" where
  "GetArticles e r blog w =
     (case refreshIfRequired e r blog w of
        None \<Rightarrow> None
      | Some (w1, Inl p) \<Rightarrow> Some (w1, Inl p)
      | Some (w1, Inr blog1) \<Rightarrow> Some (w1, Inr (blog1, articlesYear blog1)))"

fun latest :: "(string \<times> Article) list \<Rightarrow> Article list \<Rightarrow> nat \<Rightarrow> Article list" where
  "latest [] as i = as"
| "latest ((k, v) # rest) as i =
     (if i + 1 > maxLatestArticles then as @ [v] else latest rest (as @ [v]) (i + 1))"

definition GetLatestArticles ::
  "env \<Rightarrow> run \<Rightarrow> Blog \<Rightarrow> world \<Rightarrow> (world \<times> (panic + Blog \<times> Article list)) option" where
  "GetLatestArticles e r blog w =
     (case refreshIfRequired e r blog w of
        None \<Rightarrow> None
      | Some (w1, Inl p) \<Rightarrow> Some (w1, Inl p)
      | Some (w1, Inr blog1) \<Rightarrow>
          Some (w1, Inr (blog1, latest (rangeLatest r (articles blog1)) [] 0)))"

subsection \<open>What a call leaves in the trace\<close>

text \<open>
  Every call of \<open>loadArticles\<close> logs \<^verbatim>\<open>Refreshing blog articles...\<close> first, so the
  refresh attempts are the \<open>Refreshing\<close> events of the trace. \<open>quiet w w'\<close>: the world
  \<open>w'\<close> continues the trace of \<open>w\<close> without a new attempt.
\<close>

definition attempts :: "world \<Rightarrow> nat" where
  "attempts w = count_list (trace w) Refreshing"

definition quiet :: "world \<Rightarrow> world \<Rightarrow> bool" where
  "quiet w w' = (\<exists>es. trace w' = trace w @ es \<and> Refreshing \<notin> set es)"

subsection \<open>Properties of the cache\<close>

text \<open>
  \<open>keyed\<close>: a map holds one article per id, stored under its own id. \<open>ingest\<close> is the
  content that \<open>loadArticle\<close> leaves on an article, without the effects, and
  \<open>ingestAll\<close> applies it to a whole listing. \<open>consistent\<close>: every article of the
  id-index is exactly once in the list of its publication year and in no other list, and
  every article of a year list is in the id-index. \<open>reachable\<close>: the caches that
  \<open>NewBlog\<close> and the three read operations return. \<open>noMatchIn re pre s\<close>: the
  expression matches at no position of \<open>pre\<close> in the text \<open>pre @ s\<close>. \<open>Contains\<close> is
  the substring test.
\<close>

definition keyed :: "articleMap \<Rightarrow> bool" where
  "keyed as = (distinct (map fst as) \<and> (\<forall>k a. map_of as k = Some a \<longrightarrow> Id' a = k))"

definition ingest :: "env \<Rightarrow> Article \<Rightarrow> ArticleContent option" where
  "ingest e article =
     (case LatestArticleContent article of
        None \<Rightarrow> None
      | Some l \<Rightarrow>
          (case GetArticleContent e (Id' article) (LanguageId l) of
             Inl err \<Rightarrow> None
           | Inr content \<Rightarrow>
               Some (content\<lparr>Content := rewriteContent (Id' article) (Content content)\<rparr>)))"

definition ingestAll :: "env \<Rightarrow> articleMap \<Rightarrow> articleMap" where
  "ingestAll e as = map (\<lambda>(k, v). (k, v\<lparr>LatestArticleContent := ingest e v\<rparr>)) as"

definition consistent :: "(int \<Rightarrow> int) \<Rightarrow> Blog \<Rightarrow> bool" where
  "consistent yr blog =
     ((\<forall>k a. map_of (articles blog) k = Some a \<longrightarrow>
         (\<exists>bucket. articlesYear blog (yr (Published a)) = Some bucket
                   \<and> count_list bucket a = 1)
         \<and> (\<forall>y bucket. y \<noteq> yr (Published a) \<longrightarrow> articlesYear blog y = Some bucket
                \<longrightarrow> a \<notin> set bucket))
      \<and> (\<forall>y bucket a. articlesYear blog y = Some bucket \<longrightarrow> a \<in> set bucket
            \<longrightarrow> map_of (articles blog) (Id' a) = Some a))"

inductive reachable :: "(int \<Rightarrow> int) \<Rightarrow> Blog \<Rightarrow> bool" for yr :: "int \<Rightarrow> int" where
  new: "validRun r \<Longrightarrow> Year e = yr \<Longrightarrow> NewBlog e r w = Some (w', Inr blog)
          \<Longrightarrow> reachable yr blog"
| getArticle: "reachable yr blog \<Longrightarrow> validRun r \<Longrightarrow> Year e = yr
          \<Longrightarrow> GetArticle e r id' blog w = Some (w', Inr (blog', article))
          \<Longrightarrow> reachable yr blog'"
| getArticles: "reachable yr blog \<Longrightarrow> validRun r \<Longrightarrow> Year e = yr
          \<Longrightarrow> GetArticles e r blog w = Some (w', Inr (blog', years))
          \<Longrightarrow> reachable yr blog'"
| getLatestArticles: "reachable yr blog \<Longrightarrow> validRun r \<Longrightarrow> Year e = yr
          \<Longrightarrow> GetLatestArticles e r blog w = Some (w', Inr (blog', latest3))
          \<Longrightarrow> reachable yr blog'"



text \<open>
  \<open>served e offset pages\<close>: from \<open>offset\<close> on, the remote service answers the requests
  of the paging loop with the non-empty pages \<open>pages\<close>, one after the other.
  \<open>offsets offset pages\<close> are the offsets the loop then requests, the one after the last
  page included, and \<open>listed pages\<close> is the map the loop has built from the pages.
\<close>

fun served :: "env \<Rightarrow> nat \<Rightarrow> Article list list \<Rightarrow> bool" where
  "served e offset [] = True"
| "served e offset (page # pages) =
     (page \<noteq> [] \<and> FindArticles e offset = Inr page \<and> served e (offset + length page) pages)"

fun offsets :: "nat \<Rightarrow> Article list list \<Rightarrow> nat list" where
  "offsets offset [] = [offset]"
| "offsets offset (page # pages) = offset # offsets (offset + length page) pages"

definition listed :: "Article list list \<Rightarrow> articleMap" where
  "listed pages = foldl (\<lambda>m article. AList.update (Id' article) article m) [] (concat pages)"

subsection \<open>Example values\<close>

text \<open>
  A remote service with two articles on one page; the content of the first refers to
  one attachment, the content of the second cannot be fetched. \<open>downEnv\<close> is the same
  service with the listing out of order, \<open>flakyEnv\<close> the same service failing on the
  request after the first page, and \<open>nilEnv\<close> a service that lists one article without
  latest content. The example run iterates the maps of
  \<open>loadArticles\<close> and \<open>setArticles\<close> backwards.
\<close>

definition joinSlash :: "string list \<Rightarrow> string" where
  "joinSlash ps = foldr (\<lambda>p acc. if acc = [] then p else p @ ''/'' @ acc) ps []"

definition exBody :: string where
  "exBody = ''<img src=\"https://emvi.com/api/v1/content/p.png\">''"

definition exListed :: "string \<Rightarrow> int \<Rightarrow> Article" where
  "exListed i t =
     \<lparr>Id' = i, Published = t,
      LatestArticleContent = Some \<lparr>LanguageId = ''en'', Content = []\<rparr>\<rparr>"

definition exEnv :: env where
  "exEnv =
     \<lparr>FindArticles = (\<lambda>offset. if offset = 0
                                 then Inr [exListed ''a1'' 2020500, exListed ''a2'' 2019700]
                                 else Inr []),
      GetArticleContent = (\<lambda>i l. if i = ''a1'' then Inr \<lparr>LanguageId = l, Content = exBody\<rparr>
                                   else Inl (Error ''timeout'')),
      Get = (\<lambda>u. Body ''PNG''),
      MkdirAllFails = (\<lambda>p. False),
      WriteFileFails = (\<lambda>p. False),
      Join = joinSlash,
      Year = (\<lambda>t. t div 1000)\<rparr>"

definition downEnv :: env where
  "downEnv = exEnv\<lparr>FindArticles := (\<lambda>offset. Inl (Error ''unreachable''))\<rparr>"

definition exWorld :: world where
  "exWorld = \<lparr>dirs = {}, files = Map.empty, trace = []\<rparr>"

definition exRun :: run where
  "exRun = \<lparr>now1 = 0, now2 = 10, rangeLoad = rev, rangeSet = rev, rangeLatest = (\<lambda>m. m)\<rparr>"

definition exArticle1 :: Article where
  "exArticle1 =
     \<lparr>Id' = ''a1'', Published = 2020500,
      LatestArticleContent =
        Some \<lparr>LanguageId = ''en'', Content = ''<img src=\"/static/blog/a1/p.png\">''\<rparr>\<rparr>"

definition exArticle2 :: Article where
  "exArticle2 = \<lparr>Id' = ''a2'', Published = 2019700, LatestArticleContent = None\<rparr>"

definition exBlog1 :: Blog where
  "exBlog1 =
     \<lparr>articles = [(''a1'', exArticle1), (''a2'', exArticle2)],
      articlesYear = [2019 \<mapsto> [exArticle2], 2020 \<mapsto> [exArticle1]],
      nextUpdate = 3600000000010\<rparr>"

definition exWorld1 :: world where
  "exWorld1 =
     \<lparr>dirs = {''static/blog/a1'', ''static/blog''},
      files = [''static/blog/a1/p.png'' \<mapsto> ''PNG''],
      trace = [Refreshing, FindArticlesCall 0, FindArticlesCall 2,
               GetArticleCall ''a2'' ''en'', GetArticleCall ''a1'' ''en'',
               HttpGet ''https://emvi.com/api/v1/content/p.png'']\<rparr>"

definition fourArticles :: articleMap where
  "fourArticles =
     [(''a'', exListed ''a'' 4), (''b'', exListed ''b'' 3), (''c'', exListed ''c'' 2),
      (''d'', exListed ''d'' 1)]"

definition fourBlog :: Blog where
  "fourBlog = \<lparr>articles = fourArticles, articlesYear = [0 \<mapsto> map snd fourArticles], nextUpdate = 100\<rparr>"

definition afterDeadline :: run where
  "afterDeadline = exRun\<lparr>now1 := 3600000000011, now2 := 3600000000012\<rparr>"

definition atDeadline :: run where
  "atDeadline = exRun\<lparr>now1 := 3600000000010, now2 := 3600000000020\<rparr>"

definition exWorld2 :: world where
  "exWorld2 =
     exWorld1\<lparr>trace := trace exWorld1 @
       [Refreshing, FindArticlesCall 0, FindArticlesCall 2,
        GetArticleCall ''a2'' ''en'', GetArticleCall ''a1'' ''en'',
        HttpGet ''https://emvi.com/api/v1/content/p.png'']\<rparr>"

definition flakyEnv :: env where
  "flakyEnv =
     exEnv\<lparr>FindArticles := (\<lambda>offset. if offset = 0
                                      then Inr [exListed ''a1'' 2020500, exListed ''a2'' 2019700]
                                      else Inl (Error ''unreachable''))\<rparr>"

definition nilEnv :: env where
  "nilEnv =
     exEnv\<lparr>FindArticles := (\<lambda>offset. if offset = 0
                                      then Inr [\<lparr>Id' = ''a3'', Published = 2021100,
                                                 LatestArticleContent = None\<rparr>]
                                      else Inr [])\<rparr>"

section \<open>Lemmas\<close>

lemma quiet_refl: "quiet w w"
  by (simp add: quiet_def)

lemma quiet_trans: "quiet w w1 \<Longrightarrow> quiet w1 w2 \<Longrightarrow> quiet w w2"
  by (auto simp: quiet_def)

lemma quiet_logged: "e \<noteq> Refreshing \<Longrightarrow> quiet w (logged e w)"
  by (simp add: quiet_def logged_def)

lemma quiet_attempts: "quiet w w' \<Longrightarrow> attempts w' = attempts w"
  by (auto simp: quiet_def attempts_def count_list_0_iff)

lemma trace_download:
  "trace (download e i rs w) =
     trace w @ map (\<lambda>a. HttpGet (a ! 2 @ a ! 3)) (filter (\<lambda>a. length a = 4) rs)"
  by (induction rs arbitrary: w) (auto simp: logged_def Let_def split: response.splits)

lemma quiet_download: "quiet w (download e i rs w)"
  by (auto simp: quiet_def trace_download)

lemma quiet_downloadAttachments: "quiet w (downloadAttachments e i c w)"
proof -
  have "quiet w (download e i rs w)" "quiet w (download e i rs (w\<lparr>dirs := d\<rparr>))" for rs d
    using quiet_download [of w e i rs] quiet_download [of "w\<lparr>dirs := d\<rparr>" e i rs]
    by (simp_all add: quiet_def)
  then show ?thesis
    by (simp add: downloadAttachments_def Let_def quiet_refl)
qed

lemma quiet_loadArticle: "quiet w (fst (loadArticle e a w))"
  by (auto simp: loadArticle_def Let_def quiet_refl split: option.splits sum.splits
      intro!: quiet_trans [OF quiet_logged quiet_downloadAttachments] quiet_logged)

lemma quiet_loadContents: "quiet w (fst (loadContents e ps as w))"
proof (induction ps arbitrary: as w)
  case Nil
  then show ?case by (simp add: quiet_refl)
next
  case (Cons p ps)
  obtain k v where p: "p = (k, v)" by (cases p)
  obtain w1 res where l: "loadArticle e v w = (w1, res)" by (cases "loadArticle e v w")
  have q: "quiet w w1" using quiet_loadArticle [of w e v] l by simp
  show ?case
  proof (cases res)
    case (Inl x)
    then show ?thesis using p l q by simp
  next
    case (Inr c)
    then show ?thesis using p l quiet_trans [OF q Cons.IH] by simp
  qed
qed

lemma fetchPages_induct [consumes 1, case_names stop err page]:
  assumes "fetchPages e offset n as w = Some y"
    and "\<And>offset as w. P offset 0 as w (w, Inr as)"
    and "\<And>offset n as w err. 0 < n \<Longrightarrow> FindArticles e offset = Inl err \<Longrightarrow>
           P offset n as w (logged (FindArticlesCall offset) w, Inl err)"
    and "\<And>offset n as w results y. 0 < n \<Longrightarrow> FindArticles e offset = Inr results \<Longrightarrow>
           fetchPages e (offset + length results) (length results)
             (foldl (\<lambda>m article. AList.update (Id' article) article m) as results)
             (logged (FindArticlesCall offset) w) = Some y \<Longrightarrow>
           P (offset + length results) (length results)
             (foldl (\<lambda>m article. AList.update (Id' article) article m) as results)
             (logged (FindArticlesCall offset) w) y \<Longrightarrow>
           P offset n as w y"
  shows "P offset n as w y"
proof -
  have "e' = e \<longrightarrow> fetchPages e offset n as w = Some y \<longrightarrow> P offset n as w y"
    if "fetchPages e' offset n as w = Some y" for e'
    using that
  proof (rule fetchPages.raw_induct
      [where P = "\<lambda>e' offset n as w y. e' = e \<longrightarrow> fetchPages e offset n as w = Some y \<longrightarrow> P offset n as w y", rotated])
    fix f :: "env \<Rightarrow> nat \<Rightarrow> nat \<Rightarrow> articleMap \<Rightarrow> world \<Rightarrow> (world \<times> (error + articleMap)) option"
      and e' :: env and offset n :: nat and as :: articleMap and w :: world
      and y :: "world \<times> (error + articleMap)"
    assume IH: "\<And>e' offset n as w y. f e' offset n as w = Some y \<Longrightarrow>
        e' = e \<longrightarrow> fetchPages e offset n as w = Some y \<longrightarrow> P offset n as w y"
      and body: "(if 0 < n
        then case FindArticles e' offset of
             Inl err \<Rightarrow> Some (logged (FindArticlesCall offset) w, Inl err)
           | Inr results \<Rightarrow>
               f e' (offset + length results) (length results)
                 (foldl (\<lambda>m article. AList.update (Id' article) article m) as results)
                 (logged (FindArticlesCall offset) w)
        else Some (w, Inr as)) = Some y"
    show "e' = e \<longrightarrow> fetchPages e offset n as w = Some y \<longrightarrow> P offset n as w y"
    proof (intro impI)
      assume e': "e' = e" and fp: "fetchPages e offset n as w = Some y"
      show "P offset n as w y"
      proof (cases "0 < n")
        case False
        then show ?thesis using body assms(2) by auto
      next
        case True
        show ?thesis
        proof (cases "FindArticles e offset")
          case (Inl err)
          then show ?thesis using True body e' assms(3) by auto
        next
          case (Inr results)
          let ?as = "foldl (\<lambda>m article. AList.update (Id' article) article m) as results"
          let ?w = "logged (FindArticlesCall offset) w"
          have f: "f e (offset + length results) (length results) ?as ?w = Some y"
            using True body e' Inr by simp
          have fp': "fetchPages e (offset + length results) (length results) ?as ?w = Some y"
            using fp True Inr by (subst (asm) fetchPages.simps) simp
          have "P (offset + length results) (length results) ?as ?w y"
            using IH [OF f] fp' by simp
          then show ?thesis
            using assms(4) [OF True Inr fp'] by simp
        qed
      qed
    qed
  qed
  then show ?thesis using assms(1) by simp
qed

lemma quiet_fetchPages:
  assumes "fetchPages e offset n as w = Some y"
  shows "quiet w (fst y)"
  using assms
proof (induct rule: fetchPages_induct)
  case (stop offset as w)
  then show ?case by (simp add: quiet_refl)
next
  case (err offset n as w err)
  then show ?case by (simp add: quiet_logged)
next
  case (page offset n as w results y)
  then show ?case
    using quiet_trans [OF quiet_logged [of "FindArticlesCall offset" w]] by simp
qed

lemma attempts_loadArticles:
  assumes "loadArticles e r blog w = Some (w', res)"
  shows "attempts w' = attempts w + 1"
proof -
  obtain w1 fr where f: "fetchPages e 0 1 [] (logged Refreshing w) = Some (w1, fr)"
    using assms by (auto simp: loadArticles_def split: option.splits)
  have a1: "attempts w1 = attempts w + 1"
    using quiet_attempts [OF quiet_fetchPages [OF f]] by (simp add: attempts_def logged_def)
  show ?thesis
  proof (cases fr)
    case (Inl err)
    then show ?thesis using assms f a1 by (simp add: loadArticles_def)
  next
    case (Inr as)
    have "attempts (fst (loadContents e (rangeLoad r as) as w1)) = attempts w1"
      by (rule quiet_attempts [OF quiet_loadContents])
    then show ?thesis using assms f a1 Inr
      by (auto simp: loadArticles_def split: prod.splits sum.splits)
  qed
qed

lemma toUpperASCII_literals:
  "toUpperASCII CHR ''h'' = CHR ''H''" "toUpperASCII CHR ''r'' = CHR ''R''"
  "toUpperASCII CHR ''e'' = CHR ''E''" "toUpperASCII CHR ''f'' = CHR ''F''"
  "toUpperASCII CHR ''s'' = CHR ''S''" "toUpperASCII CHR ''c'' = CHR ''C''"
  "toUpperASCII CHR ''a'' = CHR ''A''" "toUpperASCII CHR ''d'' = CHR ''D''"
  "toUpperASCII CHR ''p'' = CHR ''P''" "toUpperASCII CHR ''i'' = CHR ''I''"
  "toUpperASCII CHR ''v'' = CHR ''V''" "toUpperASCII CHR ''o'' = CHR ''O''"
  "toUpperASCII CHR ''n'' = CHR ''N''" "toUpperASCII CHR ''t'' = CHR ''T''"
  "toUpperASCII CHR ''='' = CHR ''=''" "toUpperASCII CHR ''/'' = CHR ''/''"
  "toUpperASCII CHR ''1'' = CHR ''1''" "toUpperASCII CHR 0x22 = CHR 0x22"
  "toUpperASCII CHR 0xC5 = CHR 0xC5" "toUpperASCII CHR 0xBF = CHR 0xBF"
  by (simp_all add: toUpperASCII_def)

lemmas regexp_eval =
  rewriteContent_def ReplaceAllString_def FindAllStringSubmatch_def linkRegex_def
  attachmentRegex_def attachmentURLRegex_def attachmentParts_def attrName_def
  toUpperASCII_literals dquote_def notQuote_def matched_def extract'_def isNameChar_def
  digitVal_def

lemmas refresh_eval =
  NewBlog_def loadArticles_def fetchPages.simps loadArticle_def downloadAttachments_def
  logged_def notExist_def setArticles_def blogFileCache_def blogCacheTime_def

lemmas example_defs =
  exEnv_def exRun_def exWorld_def exListed_def exBody_def joinSlash_def exBlog1_def
  exWorld1_def exArticle1_def exArticle2_def downEnv_def

lemma example_NewBlog: "NewBlog exEnv exRun exWorld = Some (exWorld1, Inr exBlog1)"
  by (simp add: example_defs regexp_eval refresh_eval)

lemma loadArticles_nextUpdate:
  "loadArticles e r blog w = Some (w', Inr blog') \<Longrightarrow> nextUpdate blog' = now2 r + blogCacheTime"
  by (auto simp: loadArticles_def setArticles_def split: option.splits sum.splits prod.splits)

lemma refreshIfRequired_idle:
  "now1 r \<le> nextUpdate blog \<Longrightarrow> refreshIfRequired e r blog w = Some (w, Inr blog)"
  by (simp add: refreshIfRequired_def)

lemma refreshIfRequired_due:
  "nextUpdate blog < now1 r \<Longrightarrow> refreshIfRequired e r blog w = loadArticles e r blog w"
  by (simp add: refreshIfRequired_def)

lemma GetArticle_world:
  "GetArticle e r id' blog w = Some (w', res) \<Longrightarrow>
     \<exists>res'. refreshIfRequired e r blog w = Some (w', res')"
  by (auto simp: GetArticle_def split: option.splits sum.splits)

lemma GetArticles_world:
  "GetArticles e r blog w = Some (w', res) \<Longrightarrow>
     \<exists>res'. refreshIfRequired e r blog w = Some (w', res')"
  by (auto simp: GetArticles_def split: option.splits sum.splits)

lemma GetLatestArticles_world:
  "GetLatestArticles e r blog w = Some (w', res) \<Longrightarrow>
     \<exists>res'. refreshIfRequired e r blog w = Some (w', res')"
  by (auto simp: GetLatestArticles_def split: option.splits sum.splits)

lemma keyed_Nil: "keyed []"
  by (simp add: keyed_def)

lemma keyed_update: "keyed as \<Longrightarrow> Id' a = k \<Longrightarrow> keyed (AList.update k a as)"
  by (auto simp: keyed_def distinct_update update_conv' split: if_splits)

lemma keyed_foldl:
  "keyed as \<Longrightarrow> keyed (foldl (\<lambda>m article. AList.update (Id' article) article m) as results)"
  by (induction results arbitrary: as) (simp_all add: keyed_update)

lemma keyed_fetchPages:
  assumes "fetchPages e offset n as w = Some y"
  shows "keyed as \<longrightarrow> (\<forall>as'. snd y = Inr as' \<longrightarrow> keyed as')"
  using assms
proof (induct rule: fetchPages_induct)
  case (stop offset as w)
  then show ?case by simp
next
  case (err offset n as w err)
  then show ?case by simp
next
  case (page offset n as w results y)
  show ?case
  proof (intro impI)
    assume "keyed as"
    then have "keyed (foldl (\<lambda>m article. AList.update (Id' article) article m) as results)"
      by (rule keyed_foldl)
    then show "\<forall>as'. snd y = Inr as' \<longrightarrow> keyed as'"
      using page(4) by blast
  qed
qed

lemma update_existing:
  "distinct (map fst as) \<Longrightarrow> map_of as k = Some v \<Longrightarrow>
     AList.update k v' as = map (\<lambda>(k', x). if k' = k then (k', v') else (k', x)) as"
proof (induction as)
  case Nil
  then show ?case by simp
next
  case (Cons p as)
  obtain k0 v0 where p: "p = (k0, v0)" by (cases p)
  show ?case
  proof (cases "k0 = k")
    case True
    have "k \<notin> fst ` set as" using Cons.prems(1) p True by simp
    then have "map (\<lambda>(k', x). if k' = k then (k', v') else (k', x)) as = as"
      by (intro map_idI) (auto simp: image_iff)
    then show ?thesis using p True by simp
  next
    case False
    then show ?thesis using Cons p by simp
  qed
qed

lemma loadArticle_result:
  "snd (loadArticle e a w) =
     (if LatestArticleContent a = None then Inl NilPointerDereference else Inr (ingest e a))"
  by (auto simp: loadArticle_def ingest_def Let_def split: option.splits sum.splits)

lemma loadContents_result:
  assumes "distinct (map fst as)" "distinct (map fst ps)"
    and "\<forall>(k, v) \<in> set ps. map_of as k = Some v"
    and "\<forall>(k, v) \<in> set ps. LatestArticleContent v \<noteq> None"
  shows "snd (loadContents e ps as w) =
     Inr (map (\<lambda>(k, v). if k \<in> fst ` set ps
                          then (k, v\<lparr>LatestArticleContent := ingest e v\<rparr>) else (k, v)) as)"
  using assms
proof (induction ps arbitrary: as w)
  case Nil
  then show ?case by simp
next
  case (Cons p ps)
  obtain k v where p: "p = (k, v)" by (cases p)
  obtain w1 where l: "loadArticle e v w = (w1, Inr (ingest e v))"
    using loadArticle_result [of e v w] Cons.prems(4) p
    by (cases "loadArticle e v w") auto
  let ?v = "v\<lparr>LatestArticleContent := ingest e v\<rparr>"
  let ?as = "AList.update k ?v as"
  have kv: "map_of as k = Some v" using Cons.prems(3) p by simp
  have as1: "?as = map (\<lambda>(k', x). if k' = k then (k', ?v) else (k', x)) as"
    using Cons.prems(1) kv by (rule update_existing)
  have k: "k \<notin> fst ` set ps" using Cons.prems(2) p by simp
  have d: "distinct (map fst ?as)" using Cons.prems(1) by (simp add: distinct_update)
  have m: "\<forall>(k', v') \<in> set ps. map_of ?as k' = Some v'"
  proof (clarify)
    fix k' v'
    assume kv': "(k', v') \<in> set ps"
    then have "k' \<noteq> k" using k by (force simp: image_iff)
    moreover have "map_of as k' = Some v'" using Cons.prems(3) kv' by auto
    ultimately show "map_of ?as k' = Some v'" by (simp add: update_conv')
  qed
  have IH: "snd (loadContents e ps ?as w1) =
     Inr (map (\<lambda>(k, v). if k \<in> fst ` set ps
                          then (k, v\<lparr>LatestArticleContent := ingest e v\<rparr>) else (k, v)) ?as)"
    using Cons.IH [OF d _ m] Cons.prems(2,4) by simp
  have v: "(k', x) \<in> set as \<Longrightarrow> k' = k \<Longrightarrow> x = v" for k' x
    using Cons.prems(1) kv by simp
  have "map (\<lambda>(k, v). if k \<in> fst ` set ps
                          then (k, v\<lparr>LatestArticleContent := ingest e v\<rparr>) else (k, v)) ?as
      = map (\<lambda>(k, v). if k \<in> fst ` set (p # ps)
                          then (k, v\<lparr>LatestArticleContent := ingest e v\<rparr>) else (k, v)) as"
    unfolding as1 map_map
  proof (rule map_cong [OF refl])
    fix x
    assume x: "x \<in> set as"
    obtain k' x' where x': "x = (k', x')" by (cases x)
    show "((\<lambda>(k, v). if k \<in> fst ` set ps
                          then (k, v\<lparr>LatestArticleContent := ingest e v\<rparr>) else (k, v)) \<circ>
           (\<lambda>(k', x). if k' = k then (k', ?v) else (k', x))) x =
          (case x of (k, v) \<Rightarrow> if k \<in> fst ` set (p # ps)
                          then (k, v\<lparr>LatestArticleContent := ingest e v\<rparr>) else (k, v))"
    proof (cases "k' = k")
      case True
      then have "x' = v" using v x x' by simp
      then show ?thesis using True x' k p by simp
    next
      case False
      then show ?thesis using x' p by simp
    qed
  qed
  then show ?case using p l IH by simp
qed

lemma loadContents_panics:
  "\<exists>(k, v) \<in> set ps. LatestArticleContent v = None \<Longrightarrow>
     snd (loadContents e ps as w) = Inl NilPointerDereference"
proof (induction ps arbitrary: as w)
  case Nil
  then show ?case by simp
next
  case (Cons p ps)
  obtain k v where p: "p = (k, v)" by (cases p)
  show ?case
  proof (cases "LatestArticleContent v = None")
    case True
    then show ?thesis using p loadArticle_result [of e v w]
      by (cases "loadArticle e v w") auto
  next
    case False
    then have "\<exists>(k, v) \<in> set ps. LatestArticleContent v = None"
      using Cons.prems p by auto
    then show ?thesis using p False Cons.IH loadArticle_result [of e v w]
      by (cases "loadArticle e v w") auto
  qed
qed

lemma fillYears_lookup:
  "fillYears yr xs years y =
     (case years y of
        None \<Rightarrow> (if filter (\<lambda>a. yr (Published a) = y) (map snd xs) = [] then None
                 else Some (filter (\<lambda>a. yr (Published a) = y) (map snd xs)))
      | Some bucket \<Rightarrow> Some (bucket @ filter (\<lambda>a. yr (Published a) = y) (map snd xs)))"
proof (induction xs arbitrary: years)
  case Nil
  then show ?case by (simp split: option.splits)
next
  case (Cons p xs)
  obtain k a where p: "p = (k, a)" by (cases p)
  show ?case
    unfolding p fillYears.simps Cons.IH
    by (cases "yr (Published a) = y"; cases "years y"; cases "years (yr (Published a))") simp_all
qed

lemma fillYears_empty:
  "fillYears yr xs Map.empty y =
     (if filter (\<lambda>a. yr (Published a) = y) (map snd xs) = [] then None
      else Some (filter (\<lambda>a. yr (Published a) = y) (map snd xs)))"
  by (simp add: fillYears_lookup)

lemma count_list_distinct: "distinct xs \<Longrightarrow> x \<in> set xs \<Longrightarrow> count_list xs x = 1"
  by (induction xs) auto

lemma keyed_values_distinct:
  assumes "keyed as"
  shows "distinct (map snd as)"
proof -
  have "fst x = (Id' \<circ> snd) x" if x: "x \<in> set as" for x
  proof -
    obtain k a where ka: "x = (k, a)" by (cases x)
    then have "map_of as k = Some a" using assms x by (simp add: keyed_def)
    then show ?thesis using assms ka by (simp add: keyed_def)
  qed
  then have "map fst as = map (Id' \<circ> snd) as"
    by (intro map_cong [OF refl])
  then have eq: "map fst as = map Id' (map snd as)" by simp
  have "distinct (map fst as)" using assms by (simp add: keyed_def)
  then have "distinct (map Id' (map snd as))" unfolding eq .
  then show ?thesis by (metis distinct_map)
qed

lemma keyed_member:
  "keyed as \<Longrightarrow> a \<in> snd ` set as \<longleftrightarrow> map_of as (Id' a) = Some a"
proof
  assume k: "keyed as" and "a \<in> snd ` set as"
  then obtain k' where "(k', a) \<in> set as" by force
  then have "map_of as k' = Some a" using k by (simp add: keyed_def)
  then show "map_of as (Id' a) = Some a" using k by (auto simp: keyed_def)
next
  assume "keyed as" and "map_of as (Id' a) = Some a"
  then have "(Id' a, a) \<in> set as" by (simp add: map_of_SomeD)
  then show "a \<in> snd ` set as" by force
qed

lemma consistent_rebuilt:
  assumes k: "keyed as" and ps: "mset ps = mset as"
    and a: "articles blog = as" and y: "articlesYear blog = fillYears yr ps Map.empty"
  shows "consistent yr blog"
proof -
  have set: "set (map snd ps) = snd ` set as"
    using mset_eq_setD [OF ps] by simp
  have "mset (map snd ps) = mset (map snd as)" using ps by simp
  then have d: "distinct (map snd ps)"
    using keyed_values_distinct [OF k] mset_eq_imp_distinct_iff by blast
  have bucket: "articlesYear blog y' = Some bucket \<Longrightarrow>
      bucket = filter (\<lambda>a. yr (Published a) = y') (map snd ps)" for y' bucket
    by (simp add: y fillYears_empty split: if_splits)
  show ?thesis
    unfolding consistent_def
  proof (intro conjI allI impI)
    fix k' a'
    assume m: "map_of (articles blog) k' = Some a'"
    then have "a' \<in> snd ` set as" using a by (force dest: map_of_SomeD)
    then have in_ps: "a' \<in> set (map snd ps)" using set by simp
    let ?b = "filter (\<lambda>a. yr (Published a) = yr (Published a')) (map snd ps)"
    have "a' \<in> set ?b" using in_ps by simp
    then have "?b \<noteq> []" by (metis empty_iff empty_set)
    then have "articlesYear blog (yr (Published a')) = Some ?b"
      by (simp add: y fillYears_empty)
    moreover have "count_list ?b a' = 1"
      using d \<open>a' \<in> set ?b\<close> by (intro count_list_distinct distinct_filter)
    ultimately show "\<exists>bucket. articlesYear blog (yr (Published a')) = Some bucket
        \<and> count_list bucket a' = 1" by blast
  next
    fix k' :: string and a' :: Article and y' bucket
    assume "y' \<noteq> yr (Published a')" "articlesYear blog y' = Some bucket"
    then show "a' \<notin> set bucket" using bucket [of y' bucket] by auto
  next
    fix y' bucket a'
    assume "articlesYear blog y' = Some bucket" "a' \<in> set bucket"
    then have "a' \<in> set (map snd ps)" using bucket [of y' bucket] by auto
    then have "a' \<in> snd ` set as" using set by simp
    then show "map_of (articles blog) (Id' a') = Some a'"
      using keyed_member [OF k] a by simp
  qed
qed

lemma consistent_nextUpdate:
  "consistent yr (blog\<lparr>nextUpdate := t\<rparr>) = consistent yr blog"
  by (simp add: consistent_def)

lemma keyed_ingestAll: "keyed as \<Longrightarrow> keyed (ingestAll e as)"
proof -
  assume k: "keyed as"
  have f: "map fst (ingestAll e as) = map fst as"
    by (simp add: ingestAll_def case_prod_beta comp_def)
  have "map_of (ingestAll e as) k' = Some a \<Longrightarrow> Id' a = k'" for k' a
  proof -
    assume "map_of (ingestAll e as) k' = Some a"
    then have "(k', a) \<in> set (ingestAll e as)" by (rule map_of_SomeD)
    then obtain v where v: "(k', v) \<in> set as" "a = v\<lparr>LatestArticleContent := ingest e v\<rparr>"
      by (auto simp: ingestAll_def)
    then have "map_of as k' = Some v" using k by (simp add: keyed_def)
    then show "Id' a = k'" using k v by (auto simp: keyed_def)
  qed
  then show "keyed (ingestAll e as)" using k f by (simp add: keyed_def)
qed

lemma fetchPages_keyed:
  "fetchPages e 0 1 [] w = Some (w1, Inr as) \<Longrightarrow> keyed as"
  using keyed_fetchPages [of e 0 1 "[]" w "(w1, Inr as)"] by (simp add: keyed_Nil)



lemma loadContents_range:
  assumes k: "keyed as" and ps: "mset ps = mset as"
  shows "snd (loadContents e ps as w) =
     (if \<forall>(k, v) \<in> set as. LatestArticleContent v \<noteq> None then Inr (ingestAll e as)
      else Inl NilPointerDereference)"
proof -
  have set: "set ps = set as" using ps by (rule mset_eq_setD)
  have d: "distinct (map fst as)" using k by (simp add: keyed_def)
  have "mset (map fst ps) = mset (map fst as)" using ps by simp
  then have dps: "distinct (map fst ps)" using d mset_eq_imp_distinct_iff by blast
  have m: "\<forall>(k, v) \<in> set ps. map_of as k = Some v"
    using set d by auto
  show ?thesis
  proof (cases "\<forall>(k, v) \<in> set as. LatestArticleContent v \<noteq> None")
    case True
    then have n: "\<forall>(k, v) \<in> set ps. LatestArticleContent v \<noteq> None" using set by simp
    have "map (\<lambda>(k, v). if k \<in> fst ` set ps
                          then (k, v\<lparr>LatestArticleContent := ingest e v\<rparr>) else (k, v)) as
          = ingestAll e as"
      unfolding ingestAll_def using set by (intro map_cong [OF refl]) force
    then show ?thesis using loadContents_result [OF d dps m n, of e w] True by simp
  next
    case False
    then have "\<exists>(k, v) \<in> set ps. LatestArticleContent v = None" using set by auto
    then show ?thesis using loadContents_panics [of ps e as w] False by simp
  qed
qed

lemma loadArticles_rebuilt:
  assumes f: "fetchPages e 0 1 [] (logged Refreshing w) = Some (w1, Inr as)"
    and r: "validRun r"
  shows "\<exists>w2. loadArticles e r blog w =
     Some (w2, if \<forall>(k, v) \<in> set as. LatestArticleContent v \<noteq> None
               then Inr (blog\<lparr>articles := ingestAll e as,
                               articlesYear := fillYears (Year e) (rangeSet r (ingestAll e as))
                                                 Map.empty,
                               nextUpdate := now2 r + blogCacheTime\<rparr>)
               else Inl NilPointerDereference)"
proof -
  have k: "keyed as" using f by (rule fetchPages_keyed)
  have "mset (rangeLoad r as) = mset as" using r by (simp add: validRun_def)
  then have c: "snd (loadContents e (rangeLoad r as) as w1) =
     (if \<forall>(k, v) \<in> set as. LatestArticleContent v \<noteq> None then Inr (ingestAll e as)
      else Inl NilPointerDereference)"
    using k by (rule loadContents_range [rotated])
  obtain w2 res where l: "loadContents e (rangeLoad r as) as w1 = (w2, res)"
    by (cases "loadContents e (rangeLoad r as) as w1")
  show ?thesis
    using f l c by (auto simp: loadArticles_def setArticles_def)
qed

lemma loadArticles_cases:
  assumes l: "loadArticles e r blog w = Some (w', Inr blog')" and r: "validRun r"
  shows "(articles blog' = articles blog \<and> articlesYear blog' = articlesYear blog)
    \<or> (\<exists>as. keyed as \<and> articles blog' = ingestAll e as
           \<and> articlesYear blog' = fillYears (Year e) (rangeSet r (ingestAll e as)) Map.empty)"
proof -
  obtain w1 fr where f: "fetchPages e 0 1 [] (logged Refreshing w) = Some (w1, fr)"
    using l by (auto simp: loadArticles_def split: option.splits)
  show ?thesis
  proof (cases fr)
    case (Inl err)
    then show ?thesis using l f by (auto simp: loadArticles_def)
  next
    case (Inr as)
    have k: "keyed as" using f Inr fetchPages_keyed by simp
    obtain w2 where "loadArticles e r blog w =
       Some (w2, if \<forall>(k, v) \<in> set as. LatestArticleContent v \<noteq> None
               then Inr (blog\<lparr>articles := ingestAll e as,
                               articlesYear := fillYears (Year e) (rangeSet r (ingestAll e as))
                                                 Map.empty,
                               nextUpdate := now2 r + blogCacheTime\<rparr>)
               else Inl NilPointerDereference)"
      using loadArticles_rebuilt [OF f [unfolded Inr] r] by blast
    then have "articles blog' = ingestAll e as
      \<and> articlesYear blog' = fillYears (Year e) (rangeSet r (ingestAll e as)) Map.empty"
      using l by (auto split: if_splits)
    then show ?thesis using k by blast
  qed
qed

lemma loadArticles_keyed:
  assumes "loadArticles e r blog w = Some (w', Inr blog')" "validRun r" "keyed (articles blog)"
  shows "keyed (articles blog')"
  using loadArticles_cases [OF assms(1,2)] assms(3) keyed_ingestAll by auto

lemma loadArticles_consistent:
  assumes l: "loadArticles e r blog w = Some (w', Inr blog')" and r: "validRun r"
    and c: "consistent (Year e) blog"
  shows "consistent (Year e) blog'"
  using loadArticles_cases [OF l r]
proof (elim disjE exE conjE)
  assume "articles blog' = articles blog" "articlesYear blog' = articlesYear blog"
  then show ?thesis using c by (simp add: consistent_def)
next
  fix as
  assume k: "keyed as" and a: "articles blog' = ingestAll e as"
    and y: "articlesYear blog' = fillYears (Year e) (rangeSet r (ingestAll e as)) Map.empty"
  have "mset (rangeSet r (ingestAll e as)) = mset (ingestAll e as)"
    using r by (simp add: validRun_def)
  then show ?thesis
    using consistent_rebuilt [OF keyed_ingestAll [OF k] _ a y] by simp
qed

lemma refresh_keyed:
  "refreshIfRequired e r blog w = Some (w', Inr blog') \<Longrightarrow> validRun r \<Longrightarrow>
     keyed (articles blog) \<Longrightarrow> keyed (articles blog')"
  using loadArticles_keyed by (auto simp: refreshIfRequired_def split: if_splits)

lemma refresh_consistent:
  "refreshIfRequired e r blog w = Some (w', Inr blog') \<Longrightarrow> validRun r \<Longrightarrow>
     consistent (Year e) blog \<Longrightarrow> consistent (Year e) blog'"
  using loadArticles_consistent by (auto simp: refreshIfRequired_def split: if_splits)

lemma GetArticle_refresh:
  "GetArticle e r id' blog w = Some (w', Inr (blog', a)) \<Longrightarrow>
     refreshIfRequired e r blog w = Some (w', Inr blog')
     \<and> a = (case map_of (articles blog') id' of None \<Rightarrow> zeroArticle | Some article \<Rightarrow> article)"
  by (auto simp: GetArticle_def split: option.splits sum.splits)

lemma GetArticles_refresh:
  "GetArticles e r blog w = Some (w', Inr (blog', ys)) \<Longrightarrow>
     refreshIfRequired e r blog w = Some (w', Inr blog')"
  by (auto simp: GetArticles_def split: option.splits sum.splits)

lemma GetLatestArticles_refresh:
  "GetLatestArticles e r blog w = Some (w', Inr (blog', as)) \<Longrightarrow>
     refreshIfRequired e r blog w = Some (w', Inr blog')"
  by (auto simp: GetLatestArticles_def split: option.splits sum.splits)

lemma reachable_invariant:
  "reachable yr blog \<Longrightarrow> keyed (articles blog) \<and> consistent yr blog"
proof (induction rule: reachable.induct)
  case (new r e w w' blog)
  let ?b = "\<lparr>articles = [], articlesYear = Map.empty, nextUpdate = now1 r + blogCacheTime\<rparr>"
  have "keyed (articles ?b)" "consistent (Year e) ?b"
    by (simp_all add: keyed_def consistent_def)
  then show ?case
    using new loadArticles_keyed loadArticles_consistent unfolding NewBlog_def by blast
next
  case (getArticle blog r e id' w w' blog' article)
  then show ?case
    using refresh_keyed refresh_consistent GetArticle_refresh by blast
next
  case (getArticles blog r e w w' blog' years)
  then show ?case
    using refresh_keyed refresh_consistent GetArticles_refresh by blast
next
  case (getLatestArticles blog r e w w' blog' latest3)
  then show ?case
    using refresh_keyed refresh_consistent GetLatestArticles_refresh by blast
qed

lemma example_validRun: "validRun exRun"
  by (simp add: validRun_def exRun_def)

lemma example_reachable: "reachable (Year exEnv) exBlog1"
  using reachable.new [OF example_validRun refl example_NewBlog] .






















lemma fetchPages_fails:
  "served e offset pages \<Longrightarrow> FindArticles e (offset + length (concat pages)) = Inl err \<Longrightarrow>
   0 < n \<Longrightarrow>
     fetchPages e offset n as w =
       Some (w\<lparr>trace := trace w @ map FindArticlesCall (offsets offset pages)\<rparr>, Inl err)"
proof (induction pages arbitrary: offset n as w)
  case Nil
  then show ?case by (subst fetchPages.simps) (simp add: logged_def)
next
  case (Cons page pages)
  have p: "page \<noteq> []" "FindArticles e offset = Inr page" "served e (offset + length page) pages"
    using Cons.prems(1) by simp_all
  have f: "FindArticles e (offset + length page + length (concat pages)) = Inl err"
    using Cons.prems(2) by (simp add: add.assoc)
  have n: "0 < length page" using p(1) by simp
  show ?case
    apply (subst fetchPages.simps)
    using Cons.prems(3) p(2) Cons.IH [OF p(3) f n]
    by (simp add: logged_def)
qed

lemma fetchPages_ends:
  "served e offset pages \<Longrightarrow> FindArticles e (offset + length (concat pages)) = Inr [] \<Longrightarrow>
   0 < n \<Longrightarrow>
     fetchPages e offset n as w =
       Some (w\<lparr>trace := trace w @ map FindArticlesCall (offsets offset pages)\<rparr>,
             Inr (foldl (\<lambda>m article. AList.update (Id' article) article m) as (concat pages)))"
proof (induction pages arbitrary: offset n as w)
  case Nil
  have "fetchPages e offset 0 as (logged (FindArticlesCall offset) w) =
      Some (logged (FindArticlesCall offset) w, Inr as)"
    by (subst fetchPages.simps) simp
  then show ?case
    apply (subst fetchPages.simps)
    using Nil by (simp add: logged_def)
next
  case (Cons page pages)
  have p: "page \<noteq> []" "FindArticles e offset = Inr page" "served e (offset + length page) pages"
    using Cons.prems(1) by simp_all
  have f: "FindArticles e (offset + length page + length (concat pages)) = Inr []"
    using Cons.prems(2) by (simp add: add.assoc)
  have n: "0 < length page" using p(1) by simp
  show ?case
    apply (subst fetchPages.simps)
    using Cons.prems(3) p(2) Cons.IH [OF p(3) f n]
    by (simp add: logged_def)
qed

lemma loadArticles_aborted:
  assumes "served e 0 pages" and "FindArticles e (length (concat pages)) = Inl err"
  shows "loadArticles e r blog w =
     Some (w\<lparr>trace := trace w @ Refreshing # map FindArticlesCall (offsets 0 pages)\<rparr>,
           Inr (blog\<lparr>nextUpdate := now2 r + blogCacheTime\<rparr>))"
  using fetchPages_fails [of e 0 pages err 1 "[]" "logged Refreshing w"] assms
  by (simp add: loadArticles_def logged_def)

lemma loadArticles_listed:
  assumes "served e 0 pages" and "FindArticles e (length (concat pages)) = Inr []"
    and "validRun r"
  shows "\<exists>w2. loadArticles e r blog w =
     Some (w2, if \<forall>(k, v) \<in> set (listed pages). LatestArticleContent v \<noteq> None
               then Inr (blog\<lparr>articles := ingestAll e (listed pages),
                               articlesYear :=
                                 fillYears (Year e) (rangeSet r (ingestAll e (listed pages)))
                                   Map.empty,
                               nextUpdate := now2 r + blogCacheTime\<rparr>)
               else Inl NilPointerDereference)"
proof -
  have "fetchPages e 0 1 [] (logged Refreshing w) =
      Some ((logged Refreshing w)\<lparr>trace := trace (logged Refreshing w)
               @ map FindArticlesCall (offsets 0 pages)\<rparr>, Inr (listed pages))"
    using fetchPages_ends [of e 0 pages 1 "[]" "logged Refreshing w"] assms(1,2)
    by (simp add: listed_def)
  then show ?thesis using assms(3) by (rule loadArticles_rebuilt)
qed

section \<open>The claims\<close>

text \<open>
  Claim C1. \<open>served e 0 pages\<close>: the remote service answers the first requests of the
  paging loop with the non-empty pages \<open>pages\<close>. If the request after them fails, on the
  first page or on a later one, \<open>loadArticles\<close> returns: it has logged the refresh and
  requested the pages up to the failing one, nothing else, and both indexes are as they
  were, whatever the cache held. The read that ran into the failed refresh, and every
  read before the new deadline, answers from the old indexes.
\<close>

theorem failed_listing_keeps_indexes:
  assumes "served e 0 pages" and "FindArticles e (length (concat pages)) = Inl err"
  shows "\<exists>w1 blog'. loadArticles e r blog w = Some (w1, Inr blog')
           \<and> w1 = w\<lparr>trace := trace w @ Refreshing # map FindArticlesCall (offsets 0 pages)\<rparr>
           \<and> articles blog' = articles blog \<and> articlesYear blog' = articlesYear blog
           \<and> (nextUpdate blog < now1 r \<longrightarrow>
                GetArticle e r id' blog w =
                  Some (w1, Inr (blog', case map_of (articles blog) id' of
                                          None \<Rightarrow> zeroArticle | Some article \<Rightarrow> article))
                \<and> GetArticles e r blog w = Some (w1, Inr (blog', articlesYear blog))
                \<and> GetLatestArticles e r blog w =
                    Some (w1, Inr (blog', latest (rangeLatest r (articles blog)) [] 0)))
           \<and> (\<forall>e2 r2 w2. now1 r2 \<le> nextUpdate blog' \<longrightarrow>
                GetArticle e2 r2 id' blog' w2 =
                  Some (w2, Inr (blog', case map_of (articles blog) id' of
                                          None \<Rightarrow> zeroArticle | Some article \<Rightarrow> article))
                \<and> GetArticles e2 r2 blog' w2 = Some (w2, Inr (blog', articlesYear blog))
                \<and> GetLatestArticles e2 r2 blog' w2 =
                    Some (w2, Inr (blog', latest (rangeLatest r2 (articles blog)) [] 0)))"
proof -
  let ?blog' = "blog\<lparr>nextUpdate := now2 r + blogCacheTime\<rparr>"
  let ?w1 = "w\<lparr>trace := trace w @ Refreshing # map FindArticlesCall (offsets 0 pages)\<rparr>"
  have l: "loadArticles e r blog w = Some (?w1, Inr ?blog')"
    using assms by (rule loadArticles_aborted)
  have due: "nextUpdate blog < now1 r \<Longrightarrow> refreshIfRequired e r blog w = Some (?w1, Inr ?blog')"
    using l by (simp add: refreshIfRequired_due)
  have idle: "now1 r2 \<le> nextUpdate ?blog' \<Longrightarrow> refreshIfRequired e2 r2 ?blog' w2 = Some (w2, Inr ?blog')"
    for e2 r2 w2 by (rule refreshIfRequired_idle)
  show ?thesis
    apply (rule exI [of _ ?w1])
    apply (rule exI [of _ ?blog'])
    using l due idle
    by (simp add: GetArticle_def GetArticles_def GetLatestArticles_def)
qed

theorem failed_listing_keeps_indexes_witness:
  "\<exists>blog'. loadArticles flakyEnv afterDeadline exBlog1 exWorld1 =
             Some (exWorld1\<lparr>trace := trace exWorld1
                     @ [Refreshing, FindArticlesCall 0, FindArticlesCall 2]\<rparr>, Inr blog')
         \<and> articles blog' = articles exBlog1 \<and> articlesYear blog' = articlesYear exBlog1
         \<and> GetArticle flakyEnv afterDeadline ''a1'' exBlog1 exWorld1 =
             Some (exWorld1\<lparr>trace := trace exWorld1
                     @ [Refreshing, FindArticlesCall 0, FindArticlesCall 2]\<rparr>,
                   Inr (blog', exArticle1))"
proof -
  let ?pages = "[[exListed ''a1'' 2020500, exListed ''a2'' 2019700]]"
  have s: "served flakyEnv 0 ?pages"
    by (simp add: flakyEnv_def)
  have f: "FindArticles flakyEnv (length (concat ?pages)) = Inl (Error ''unreachable'')"
    by (simp add: flakyEnv_def)
  have d: "nextUpdate exBlog1 < now1 afterDeadline"
    by (simp add: exBlog1_def afterDeadline_def)
  have m: "map_of (articles exBlog1) ''a1'' = Some exArticle1"
    by (simp add: exBlog1_def)
  from failed_listing_keeps_indexes [OF s f, of afterDeadline exBlog1 exWorld1 "''a1''"] d m
  show ?thesis by auto
qed

text \<open>
  Claim C3. \<open>GetLatestArticles\<close> is claimed to return at most \<open>maxLatestArticles = 3\<close>
  articles. The loop counts the article it has just appended and leaves when the count
  exceeds the limit, so from an index of four articles it returns four.
\<close>

theorem GetLatestArticles_returns_four:
  "GetLatestArticles e exRun fourBlog w = Some (w, Inr (fourBlog, map snd fourArticles))
   \<and> length (map snd fourArticles) = 4 \<and> maxLatestArticles = 3"
  by (simp add: GetLatestArticles_def refreshIfRequired_def exRun_def fourBlog_def
      fourArticles_def maxLatestArticles_def)

text \<open>
  Claim C4, amended. A read at or before the stored deadline performs no refresh: the
  world, and so the record of calls, and the cache are returned as they were. A read
  strictly after the deadline runs \<open>loadArticles\<close> once: when it returns, one more
  refresh attempt has been logged. (The claim has the refresh begin at the deadline
  itself; \<open>nextUpdate.Before(time.Now())\<close> is strict.)
\<close>

theorem refresh_only_after_deadline:
  "(now1 r \<le> nextUpdate blog \<longrightarrow>
      refreshIfRequired e r blog w = Some (w, Inr blog)
      \<and> GetArticle e r id' blog w =
          Some (w, Inr (blog, case map_of (articles blog) id' of
                                None \<Rightarrow> zeroArticle | Some article \<Rightarrow> article))
      \<and> GetArticles e r blog w = Some (w, Inr (blog, articlesYear blog))
      \<and> GetLatestArticles e r blog w =
          Some (w, Inr (blog, latest (rangeLatest r (articles blog)) [] 0)))
   \<and> (nextUpdate blog < now1 r \<longrightarrow>
      refreshIfRequired e r blog w = loadArticles e r blog w
      \<and> (\<forall>w' res. refreshIfRequired e r blog w = Some (w', res) \<longrightarrow> attempts w' = attempts w + 1)
      \<and> (\<forall>w' res. GetArticle e r id' blog w = Some (w', res) \<longrightarrow> attempts w' = attempts w + 1)
      \<and> (\<forall>w' res. GetArticles e r blog w = Some (w', res) \<longrightarrow> attempts w' = attempts w + 1)
      \<and> (\<forall>w' res. GetLatestArticles e r blog w = Some (w', res) \<longrightarrow>
            attempts w' = attempts w + 1))"
proof (intro conjI impI)
  assume idle: "now1 r \<le> nextUpdate blog"
  then show "refreshIfRequired e r blog w = Some (w, Inr blog)"
    by (rule refreshIfRequired_idle)
  then show "GetArticle e r id' blog w =
      Some (w, Inr (blog, case map_of (articles blog) id' of
                            None \<Rightarrow> zeroArticle | Some article \<Rightarrow> article))"
    "GetArticles e r blog w = Some (w, Inr (blog, articlesYear blog))"
    "GetLatestArticles e r blog w =
      Some (w, Inr (blog, latest (rangeLatest r (articles blog)) [] 0))"
    by (simp_all add: GetArticle_def GetArticles_def GetLatestArticles_def)
next
  assume due: "nextUpdate blog < now1 r"
  then show eq: "refreshIfRequired e r blog w = loadArticles e r blog w"
    by (rule refreshIfRequired_due)
  have one: "attempts w' = attempts w + 1" if "refreshIfRequired e r blog w = Some (w', res)"
    for w' res using that eq attempts_loadArticles [of e r blog w w' res] by simp
  show "\<forall>w' res. refreshIfRequired e r blog w = Some (w', res) \<longrightarrow> attempts w' = attempts w + 1"
    using one by blast
  show "\<forall>w' res. GetArticle e r id' blog w = Some (w', res) \<longrightarrow> attempts w' = attempts w + 1"
    using one GetArticle_world by blast
  show "\<forall>w' res. GetArticles e r blog w = Some (w', res) \<longrightarrow> attempts w' = attempts w + 1"
    using one GetArticles_world by blast
  show "\<forall>w' res. GetLatestArticles e r blog w = Some (w', res) \<longrightarrow> attempts w' = attempts w + 1"
    using one GetLatestArticles_world by blast
qed

theorem refresh_only_after_deadline_witness:
  "GetArticle exEnv exRun ''a1'' exBlog1 exWorld1 = Some (exWorld1, Inr (exBlog1, exArticle1))
   \<and> attempts exWorld1 = 1
   \<and> GetArticle downEnv afterDeadline ''a1'' exBlog1 exWorld1 =
       Some (logged (FindArticlesCall 0) (logged Refreshing exWorld1),
             Inr (exBlog1\<lparr>nextUpdate := 7200000000012\<rparr>, exArticle1))
   \<and> attempts (logged (FindArticlesCall 0) (logged Refreshing exWorld1)) = 2"
proof -
  have 1: "now1 exRun \<le> nextUpdate exBlog1"
    by (simp add: exRun_def exBlog1_def)
  have 2: "nextUpdate exBlog1 < now1 afterDeadline"
    by (simp add: exBlog1_def afterDeadline_def)
  have 3: "attempts exWorld1 = 1"
    by (simp add: attempts_def exWorld1_def)
  have "fetchPages downEnv 0 1 [] (logged Refreshing exWorld1) =
      Some (logged (FindArticlesCall 0) (logged Refreshing exWorld1), Inl (Error ''unreachable''))"
    by (subst fetchPages.simps) (simp add: downEnv_def)
  then have "loadArticles downEnv afterDeadline exBlog1 exWorld1 =
      Some (logged (FindArticlesCall 0) (logged Refreshing exWorld1),
            Inr (exBlog1\<lparr>nextUpdate := 7200000000012\<rparr>))"
    by (simp add: loadArticles_def afterDeadline_def blogCacheTime_def)
  then have 4: "GetArticle downEnv afterDeadline ''a1'' exBlog1 exWorld1 =
       Some (logged (FindArticlesCall 0) (logged Refreshing exWorld1),
             Inr (exBlog1\<lparr>nextUpdate := 7200000000012\<rparr>, exArticle1))"
    using 2 by (simp add: GetArticle_def refreshIfRequired_def exBlog1_def)
  show ?thesis
    using refresh_only_after_deadline [of exRun exBlog1 exEnv exWorld1 "''a1''"]
      refresh_only_after_deadline [of afterDeadline exBlog1 downEnv exWorld1 "''a1''"]
      1 2 3 4
    by (simp add: exBlog1_def)
qed

text \<open>
  A read at the very instant of the deadline: no refresh.
\<close>

theorem read_at_deadline_counterexample:
  "nextUpdate exBlog1 \<le> now1 atDeadline
   \<and> GetArticle exEnv atDeadline ''a1'' exBlog1 exWorld1 = Some (exWorld1, Inr (exBlog1, exArticle1))"
  by (simp add: GetArticle_def refreshIfRequired_def atDeadline_def exBlog1_def)

text \<open>
  Claim C9, amended. A refresh whose listing fails returns the cache with the deadline
  set to the time read at the end of the attempt plus \<open>blogCacheTime\<close>. A refresh whose
  listing ends with an empty page returns the rebuilt cache with that deadline when
  every listed article carries its latest content; when one does not, \<open>loadArticle\<close>
  dereferences a nil pointer and the refresh panics before the deadline is assigned.
  After a refresh that returned, no read up to the new deadline refreshes again. (The
  claim has the deadline set after every attempt.)
\<close>

theorem refresh_sets_deadline:
  assumes "served e 0 pages"
  shows "(FindArticles e (length (concat pages)) = Inl err \<longrightarrow>
            (\<exists>w'. loadArticles e r blog w =
                     Some (w', Inr (blog\<lparr>nextUpdate := now2 r + blogCacheTime\<rparr>))))
    \<and> (FindArticles e (length (concat pages)) = Inr [] \<and> validRun r \<longrightarrow>
            (\<exists>w'. loadArticles e r blog w =
               Some (w', if \<forall>(k, v) \<in> set (listed pages). LatestArticleContent v \<noteq> None
                         then Inr (blog\<lparr>articles := ingestAll e (listed pages),
                                 articlesYear :=
                                   fillYears (Year e) (rangeSet r (ingestAll e (listed pages)))
                                     Map.empty,
                                 nextUpdate := now2 r + blogCacheTime\<rparr>)
                         else Inl NilPointerDereference)))
    \<and> (\<forall>w' blog'. loadArticles e r blog w = Some (w', Inr blog') \<longrightarrow>
          nextUpdate blog' = now2 r + blogCacheTime
          \<and> (\<forall>e' r' w''. now1 r' \<le> now2 r + blogCacheTime \<longrightarrow>
                refreshIfRequired e' r' blog' w'' = Some (w'', Inr blog')))"
proof (intro conjI impI allI)
  assume "FindArticles e (length (concat pages)) = Inl err"
  then show "\<exists>w'. loadArticles e r blog w =
      Some (w', Inr (blog\<lparr>nextUpdate := now2 r + blogCacheTime\<rparr>))"
    using loadArticles_aborted [OF assms] by blast
next
  assume "FindArticles e (length (concat pages)) = Inr [] \<and> validRun r"
  then show "\<exists>w'. loadArticles e r blog w =
       Some (w', if \<forall>(k, v) \<in> set (listed pages). LatestArticleContent v \<noteq> None
                 then Inr (blog\<lparr>articles := ingestAll e (listed pages),
                         articlesYear :=
                           fillYears (Year e) (rangeSet r (ingestAll e (listed pages)))
                             Map.empty,
                         nextUpdate := now2 r + blogCacheTime\<rparr>)
                 else Inl NilPointerDereference)"
    using loadArticles_listed [OF assms] by blast
next
  fix w' blog'
  assume l: "loadArticles e r blog w = Some (w', Inr blog')"
  then show n: "nextUpdate blog' = now2 r + blogCacheTime"
    by (rule loadArticles_nextUpdate)
  fix e' :: env and r' :: run and w'' :: world
  assume "now1 r' \<le> now2 r + blogCacheTime"
  then show "refreshIfRequired e' r' blog' w'' = Some (w'', Inr blog')"
    using n by (simp add: refreshIfRequired_def)
qed

theorem refresh_sets_deadline_witness:
  "(\<exists>w'. loadArticles flakyEnv afterDeadline exBlog1 exWorld1 =
           Some (w', Inr (exBlog1\<lparr>nextUpdate := 7200000000012\<rparr>)))
   \<and> loadArticles exEnv afterDeadline exBlog1 exWorld1 =
       Some (exWorld2, Inr (exBlog1\<lparr>nextUpdate := 7200000000012\<rparr>))
   \<and> refreshIfRequired exEnv (exRun\<lparr>now1 := 7200000000012\<rparr>)
         (exBlog1\<lparr>nextUpdate := 7200000000012\<rparr>) exWorld2
       = Some (exWorld2, Inr (exBlog1\<lparr>nextUpdate := 7200000000012\<rparr>))"
proof -
  let ?pages = "[[exListed ''a1'' 2020500, exListed ''a2'' 2019700]]"
  have s1: "served flakyEnv 0 ?pages"
    by (simp add: flakyEnv_def)
  have f1: "FindArticles flakyEnv (length (concat ?pages)) = Inl (Error ''unreachable'')"
    by (simp add: flakyEnv_def)
  have s2: "served exEnv 0 ?pages"
    by (simp add: exEnv_def)
  have f2: "FindArticles exEnv (length (concat ?pages)) = Inr []"
    by (simp add: exEnv_def)
  have v: "validRun afterDeadline"
    by (simp add: validRun_def afterDeadline_def exRun_def)
  have l: "loadArticles exEnv afterDeadline exBlog1 exWorld1 =
       Some (exWorld2, Inr (exBlog1\<lparr>nextUpdate := 7200000000012\<rparr>))"
    by (simp add: example_defs afterDeadline_def exWorld2_def regexp_eval refresh_eval)
  have t: "now2 afterDeadline + blogCacheTime = 7200000000012"
    "now1 (exRun\<lparr>now1 := 7200000000012\<rparr>) \<le> now2 afterDeadline + blogCacheTime"
    by (simp_all add: afterDeadline_def blogCacheTime_def)
  show ?thesis
    using refresh_sets_deadline [OF s1, of "Error ''unreachable''" afterDeadline exBlog1 exWorld1]
      refresh_sets_deadline [OF s2, of "Error ''unreachable''" afterDeadline exBlog1 exWorld1]
      f1 f2 v l t
    by simp
qed

text \<open>
  A listing with an article whose \<^verbatim>\<open>LatestArticleContent\<close> is nil. The read after the
  deadline runs a refresh, which panics; the cache keeps its expired deadline, and the
  next read, at the same time, runs a second refresh.
\<close>

theorem second_attempt_after_panic_counterexample:
  "GetArticle nilEnv afterDeadline ''a1'' exBlog1 exWorld1 =
     Some (exWorld1\<lparr>trace := trace exWorld1
             @ [Refreshing, FindArticlesCall 0, FindArticlesCall 1]\<rparr>,
           Inl NilPointerDereference)
   \<and> GetArticle nilEnv afterDeadline ''a1'' exBlog1
       (exWorld1\<lparr>trace := trace exWorld1
             @ [Refreshing, FindArticlesCall 0, FindArticlesCall 1]\<rparr>) =
     Some (exWorld1\<lparr>trace := trace exWorld1
             @ [Refreshing, FindArticlesCall 0, FindArticlesCall 1,
                Refreshing, FindArticlesCall 0, FindArticlesCall 1]\<rparr>,
           Inl NilPointerDereference)
   \<and> attempts exWorld1 = 1
   \<and> attempts (exWorld1\<lparr>trace := trace exWorld1
             @ [Refreshing, FindArticlesCall 0, FindArticlesCall 1,
                Refreshing, FindArticlesCall 0, FindArticlesCall 1]\<rparr>) = 3"
  by (simp add: GetArticle_def refreshIfRequired_def nilEnv_def afterDeadline_def
      example_defs refresh_eval attempts_def)

text \<open>
  Claim C2. \<open>reachable yr blog\<close>: the cache \<open>blog\<close> is what \<open>NewBlog\<close> returned, or
  what a read returned from a reachable cache. In every reachable cache the two indexes
  agree: an article of the id-index stands once in the bucket of its publication year
  and in no other bucket, and an article of a bucket is in the id-index under its id.
\<close>

theorem indexes_consistent:
  "reachable yr blog \<Longrightarrow> consistent yr blog"
  by (simp add: reachable_invariant)

theorem indexes_consistent_witness:
  "reachable (Year exEnv) exBlog1 \<and> consistent (Year exEnv) exBlog1"
  using indexes_consistent [OF example_reachable] example_reachable by simp

text \<open>
  Claim C10. In every reachable cache the id-index is keyed by the articles' own ids,
  so \<open>GetArticle\<close> answers with the zero article or with an article of the requested
  id, for any id and also from a cache whose refreshes all failed.
\<close>

theorem index_keyed_by_id:
  assumes "reachable yr blog"
  shows "(\<forall>k a. map_of (articles blog) k = Some a \<longrightarrow> Id' a = k)
    \<and> (\<forall>e r id' w w' blog' a. validRun r \<longrightarrow>
          GetArticle e r id' blog w = Some (w', Inr (blog', a)) \<longrightarrow>
          a = zeroArticle \<or> Id' a = id')"
proof (intro conjI allI impI)
  have k: "keyed (articles blog)" using assms reachable_invariant by blast
  then show "Id' a = k'" if "map_of (articles blog) k' = Some a" for k' a
    using that by (simp add: keyed_def)
  fix e r id' w w' blog' a
  assume r: "validRun r" and g: "GetArticle e r id' blog w = Some (w', Inr (blog', a))"
  have "keyed (articles blog')"
    using GetArticle_refresh [OF g] refresh_keyed r k by blast
  then show "a = zeroArticle \<or> Id' a = id'"
    using GetArticle_refresh [OF g] by (auto simp: keyed_def split: option.splits)
qed

theorem index_keyed_by_id_witness:
  "reachable (Year exEnv) exBlog1
   \<and> map_of (articles exBlog1) ''a1'' = Some exArticle1 \<and> Id' exArticle1 = ''a1''
   \<and> GetArticle exEnv exRun ''never'' exBlog1 exWorld1 = Some (exWorld1, Inr (exBlog1, zeroArticle))
   \<and> (zeroArticle = zeroArticle \<or> Id' zeroArticle = ''never'')"
proof -
  have g: "GetArticle exEnv exRun ''never'' exBlog1 exWorld1 =
      Some (exWorld1, Inr (exBlog1, zeroArticle))"
    by (simp add: GetArticle_def refreshIfRequired_def exRun_def exBlog1_def)
  have m: "map_of (articles exBlog1) ''a1'' = Some exArticle1"
    by (simp add: exBlog1_def)
  show ?thesis
    using index_keyed_by_id [OF example_reachable] example_reachable example_validRun g m
    by blast
qed












end
